theory Spec2Isabelle
  imports Complex_Main
begin

section \<open>Data model of \<open>static/offline.js\<close>\<close>

text \<open>
  Values of the scripting language, as far as the offline queue needs them: the result of
  \<open>JSON.parse\<close>, and the argument of \<open>JSON.stringify\<close>. Objects are key/value lists in
  the order the keys were written.
\<close>

datatype js_value =
    JNull
  | JBool bool
  | JNum rat
  | JStr string
  | JArr "js_value list"
  | JObj "(string \<times> js_value) list"

text \<open>
  \<open>entryData\<close> as \<open>enhanceForm\<close> builds it from the form: \<open>formData.get\<close> yields a string or
  \<open>null\<close> (here \<open>None\<close>); \<open>hours\<close> is the number \<open>parseFloat\<close> returned, taken as a
  rational (nothing below depends on its value).
\<close>

record entry_data =
  client :: "string option"
  matter :: "string option"
  date_of_work :: "string option"
  hours :: rat
  timekeeper :: "string option"
  desc :: "string option"

text \<open>
  A queued entry: \<open>{...entryData, id, timestamp, synced}\<close>. The field \<open>id\<close> is called
  \<open>id_field\<close> here, since \<open>id\<close> is the identity function of HOL.
\<close>

record entry = entry_data +
  id_field :: string
  timestamp :: nat
  synced :: bool

text \<open>The outcome of one \<open>await fetch(...)\<close>: a response with its status, or a rejected promise.\<close>

datatype fetch_result = Response nat | NetworkError

definition ok :: "nat \<Rightarrow> bool" where
  "ok status = (200 \<le> status \<and> status \<le> 299)"

text \<open>
  The request that \<open>syncPendingEntries\<close> hands to \<open>fetch\<close>. \<open>body\<close> is the object given to
  \<open>JSON.stringify\<close>.
\<close>

record request =
  url :: string
  http_method :: string
  headers :: "(string \<times> string) list"
  body :: js_value

definition opt_js :: "string option \<Rightarrow> js_value" where
  "opt_js v = (case v of None \<Rightarrow> JNull | Some s \<Rightarrow> JStr s)"

definition sync_request :: "entry \<Rightarrow> request" where
  "sync_request e =
     \<lparr> url = ''/api/quick-entry'',
       http_method = ''POST'',
       headers = [(''Content-Type'', ''application/json''),
                  (''X-Requested-With'', ''XMLHttpRequest'')],
       body = JObj [(''client'', opt_js (client e)),
                    (''matter'', opt_js (matter e)),
                    (''hours'', JNum (hours e)),
                    (''desc'', opt_js (desc e)),
                    (''date_of_work'', opt_js (date_of_work e))] \<rparr>"

text \<open>
  One \<open>fetch\<close> call of the drain loop as it happened: the object the loop variable \<open>entry\<close>
  referred to (its address in the object store), the request, and how it ended.
\<close>

record post =
  target :: nat
  sent :: request
  outcome :: fetch_result

text \<open>
  The state of the page. The array \<open>this.pendingEntries\<close> holds references to entry objects,
  and \<open>entry.synced = true\<close> writes through such a reference, so the objects live in a store
  \<open>objs\<close> (an address is an index; objects are never freed) and the array is a list of
  addresses. \<open>storage\<close> is the item \<open>pendingEntries\<close> of \<open>localStorage\<close>: \<open>None\<close> while it was
  never written, otherwise the array whose \<open>JSON.stringify\<close> text was stored (a copy of the
  objects as they were at that moment). \<open>net_log\<close> lists every \<open>fetch\<close> issued so far.
\<close>

record page =
  objs :: "entry list"
  pendingEntries :: "nat list"
  storage :: "entry list option"
  net_log :: "post list"

definition init :: page where
  "init = \<lparr> objs = [], pendingEntries = [], storage = None, net_log = [] \<rparr>"

definition snapshot :: "page \<Rightarrow> entry list" where
  "snapshot s = map (\<lambda>a. objs s ! a) (pendingEntries s)"

definition persisted :: "page \<Rightarrow> entry list" where
  "persisted s = (case storage s of None \<Rightarrow> [] | Some q \<Rightarrow> q)"

section \<open>Operations\<close>

text \<open>
  The template literal \<open>`offline_${timestamp}`\<close> writes the number in decimal
  (\<open>Date.now()\<close> is a whole number of milliseconds, far below the range where the
  language switches to exponent notation).
\<close>

definition digit_char :: "nat \<Rightarrow> char" where
  "digit_char d = char_of (48 + d)"

fun to_decimal :: "nat \<Rightarrow> string" where
  "to_decimal n =
     (if n < 10 then [digit_char n] else to_decimal (n div 10) @ [digit_char (n mod 10)])"

declare to_decimal.simps [simp del]

text \<open>
  \<open>saveOfflineEntry(entryData)\<close>, with the value \<open>now\<close> that \<open>Date.now()\<close> returned: a new
  object is pushed onto the array and the whole array is written to storage.
\<close>

definition new_entry :: "nat \<Rightarrow> entry_data \<Rightarrow> entry" where
  "new_entry now entryData =
     \<lparr> client = client entryData, matter = matter entryData,
       date_of_work = date_of_work entryData, hours = hours entryData,
       timekeeper = timekeeper entryData, desc = desc entryData,
       id_field = ''offline_'' @ to_decimal now,
       timestamp = now,
       synced = False \<rparr>"

definition saveOfflineEntry :: "nat \<Rightarrow> entry_data \<Rightarrow> page \<Rightarrow> page" where
  "saveOfflineEntry now entryData s =
     (let s1 = s\<lparr> objs := objs s @ [new_entry now entryData],
                   pendingEntries := pendingEntries s @ [length (objs s)] \<rparr>
      in s1\<lparr> storage := Some (snapshot s1) \<rparr>)"

text \<open>
  The \<open>for (const entry of this.pendingEntries)\<close> loop of \<open>syncPendingEntries\<close>. \<open>net\<close> is the
  environment: \<open>net k\<close> is how the \<open>k\<close>-th \<open>fetch\<close> of the page's life ends. An entry already
  flagged is skipped (\<open>continue\<close>); a 2xx response flags the object and records it in
  \<open>successfulSyncs\<close>; another response only logs; a rejected \<open>fetch\<close> leaves the loop
  (\<open>break\<close>).
\<close>

definition record_post :: "nat \<Rightarrow> fetch_result \<Rightarrow> page \<Rightarrow> page" where
  "record_post a r s =
     s\<lparr> net_log := net_log s @ [\<lparr> target = a, sent = sync_request (objs s ! a), outcome = r \<rparr>] \<rparr>"

definition mark_synced :: "nat \<Rightarrow> page \<Rightarrow> page" where
  "mark_synced a s = s\<lparr> objs := (objs s)[a := (objs s ! a)\<lparr> synced := True \<rparr>] \<rparr>"

fun sync_loop :: "(nat \<Rightarrow> fetch_result) \<Rightarrow> nat list \<Rightarrow> nat list \<Rightarrow> page \<Rightarrow> nat list \<times> page" where
  "sync_loop net [] successfulSyncs s = (successfulSyncs, s)"
| "sync_loop net (a # rest) successfulSyncs s =
     (if synced (objs s ! a) then sync_loop net rest successfulSyncs s
      else
        (case net (length (net_log s)) of
           NetworkError \<Rightarrow> (successfulSyncs, record_post a NetworkError s)
         | Response status \<Rightarrow>
             if ok status
             then sync_loop net rest (successfulSyncs @ [a])
                    (mark_synced a (record_post a (Response status) s))
             else sync_loop net rest successfulSyncs (record_post a (Response status) s)))"

text \<open>
  \<open>syncPendingEntries\<close>, one pass run to its end: nothing happens on an empty array;
  otherwise the loop, then the array is replaced by its entries that are not flagged and
  written to storage. The indicator and the toast (which only shows the length of
  \<open>successfulSyncs\<close>) are not part of the state.
\<close>

definition syncPendingEntries :: "(nat \<Rightarrow> fetch_result) \<Rightarrow> page \<Rightarrow> page" where
  "syncPendingEntries net s =
     (if pendingEntries s = [] then s
      else
        (let s1 = snd (sync_loop net (pendingEntries s) [] s);
             s2 = s1\<lparr> pendingEntries := filter (\<lambda>a. \<not> synced (objs s1 ! a)) (pendingEntries s1) \<rparr>
         in s2\<lparr> storage := Some (snapshot s2) \<rparr>))"

text \<open>
  The page right after \<open>loadPendingEntries\<close> read the stored queue \<open>q\<close>: \<open>JSON.parse\<close> builds
  one new object per element.
\<close>

definition loaded :: "entry list \<Rightarrow> page" where
  "loaded q = \<lparr> objs = q, pendingEntries = [0..<length q], storage = Some q, net_log = [] \<rparr>"

text \<open>A history of the page: appends (with the clock value each one read) and drain passes.\<close>

datatype op = Append nat entry_data | Drain

fun step :: "(nat \<Rightarrow> fetch_result) \<Rightarrow> page \<Rightarrow> op \<Rightarrow> page" where
  "step net s (Append now entryData) = saveOfflineEntry now entryData s"
| "step net s Drain = syncPendingEntries net s"

definition run :: "(nat \<Rightarrow> fetch_result) \<Rightarrow> op list \<Rightarrow> page \<Rightarrow> page" where
  "run net ops s = foldl (step net) s ops"

section \<open>Loading the stored queue\<close>

text \<open>
  \<open>loadPendingEntries\<close> works on whatever text storage holds, so here the array is a plain
  \<open>js_value\<close>. \<open>JSON.parse\<close> is the platform's: it is a parameter \<open>JSON_parse\<close>, with \<open>None\<close>
  where it throws \<open>SyntaxError\<close>; the objects it returns have each key once.
\<close>

datatype js_error = SyntaxError | TypeError

definition own_property :: "(string \<times> js_value) list \<Rightarrow> string \<Rightarrow> js_value option" where
  "own_property kvs key = map_of kvs key"

text \<open>
  Whether turning a parsed value into a string throws, as the template literal of the
  log message does with \<open>this.pendingEntries.length\<close>: an object with a key \<open>toString\<close> of
  its own has no callable conversion left (a parsed value is never a function, and the
  inherited \<open>valueOf\<close> returns the object), and an array joins the strings of its elements.
\<close>

fun to_string_throws :: "js_value \<Rightarrow> bool" where
  "to_string_throws (JArr xs) = (\<exists>x\<in>set xs. to_string_throws x)"
| "to_string_throws (JObj kvs) = (own_property kvs ''toString'' \<noteq> None)"
| "to_string_throws v = False"

text \<open>
  The statement \<open>console.log(`Loaded ${this.pendingEntries.length} pending entries`)\<close> on
  the parsed value: reading \<open>length\<close> of \<open>null\<close> throws; numbers, booleans, strings and
  arrays have a number or \<open>undefined\<close> there; an object has its own \<open>length\<close>, if any.
\<close>

definition log_loaded :: "js_value \<Rightarrow> js_error option" where
  "log_loaded v =
     (case v of
        JNull \<Rightarrow> Some TypeError
      | JObj kvs \<Rightarrow>
          (case own_property kvs ''length'' of
             None \<Rightarrow> None
           | Some l \<Rightarrow> if to_string_throws l then Some TypeError else None)
      | _ \<Rightarrow> None)"

text \<open>\<open>if (stored)\<close>: \<open>getItem\<close> gave a string, and not the empty one.\<close>

definition truthy :: "string option \<Rightarrow> bool" where
  "truthy stored = (case stored of None \<Rightarrow> False | Some text \<Rightarrow> text \<noteq> [])"

text \<open>The body of the \<open>try\<close>: the value assigned, or the exception that leaves the block.\<close>

definition try_parse :: "(string \<Rightarrow> js_value option) \<Rightarrow> string \<Rightarrow> js_error + js_value" where
  "try_parse JSON_parse text =
     (case JSON_parse text of
        None \<Rightarrow> Inl SyntaxError
      | Some v \<Rightarrow> (case log_loaded v of Some e \<Rightarrow> Inl e | None \<Rightarrow> Inr v))"

text \<open>
  \<open>loadPendingEntries\<close>, given what \<open>getItem\<close> returned and the array as it is
  (\<open>current\<close>; the constructor has set it to \<open>[]\<close>). \<open>Inr v\<close>: the method returns and
  \<open>this.pendingEntries\<close> is \<open>v\<close>; \<open>Inl e\<close> would be an exception reaching the caller. The
  \<open>catch\<close> takes every exception of the \<open>try\<close> and sets the array to \<open>[]\<close>.
\<close>

definition loadPendingEntries ::
  "(string \<Rightarrow> js_value option) \<Rightarrow> string option \<Rightarrow> js_value \<Rightarrow> js_error + js_value" where
  "loadPendingEntries JSON_parse stored current =
     (if truthy stored
      then (case try_parse JSON_parse (the stored) of
              Inl e \<Rightarrow> Inr (JArr [])
            | Inr v \<Rightarrow> Inr v)
      else Inr current)"

text \<open>A sequence, in the scripting language: an array.\<close>

definition is_array :: "js_value \<Rightarrow> bool" where
  "is_array v = (case v of JArr xs \<Rightarrow> True | _ \<Rightarrow> False)"

text \<open>
  \<open>JSON.parse\<close> on the texts the examples below use: \<open>5\<close>, \<open>[]\<close> and \<open>null\<close> are JSON, and
  \<open>{oops\<close> is not. (No other text is given to this stand-in.)
\<close>

definition sample_parse :: "string \<Rightarrow> js_value option" where
  "sample_parse text =
     (if text = ''5'' then Some (JNum 5)
      else if text = ''[]'' then Some (JArr [])
      else if text = ''null'' then Some JNull
      else None)"

section \<open>The service worker\<close>





section \<open>Derived notions\<close>

text \<open>A \<open>fetch\<close> was accepted when it was answered and \<open>response.ok\<close> held.\<close>

definition accepted :: "post \<Rightarrow> bool" where
  "accepted p = (case outcome p of Response status \<Rightarrow> ok status | NetworkError \<Rightarrow> False)"

text \<open>The objects whose request was accepted, in the order of the log.\<close>

definition accepted_targets :: "post list \<Rightarrow> nat list" where
  "accepted_targets ps = map target (filter accepted ps)"

text \<open>The \<open>fetch\<close> calls that one pass of \<open>syncPendingEntries\<close> adds to the log.\<close>

definition pass_log :: "(nat \<Rightarrow> fetch_result) \<Rightarrow> page \<Rightarrow> post list" where
  "pass_log net s = drop (length (net_log s)) (net_log (syncPendingEntries net s))"

text \<open>
  The array refers to objects of the store, and to each of them once: what \<open>push\<close> of a new
  object and \<open>JSON.parse\<close> build.
\<close>

definition wf_page :: "page \<Rightarrow> bool" where
  "wf_page s = (distinct (pendingEntries s) \<and> (\<forall>a\<in>set (pendingEntries s). a < length (objs s)))"

text \<open>The entries of the array that are not flagged, in the array's order.\<close>

definition unflagged :: "page \<Rightarrow> nat list" where
  "unflagged s = filter (\<lambda>a. \<not> synced (objs s ! a)) (pendingEntries s)"

text \<open>The keys of the object a request carries as its body.\<close>

definition body_keys :: "request \<Rightarrow> string list" where
  "body_keys r = (case body r of JObj kvs \<Rightarrow> map fst kvs | _ \<Rightarrow> [])"

text \<open>
  The loop seen from outside: the calls it makes, computed from the store as it was when
  the pass began (the flags the loop sets are on entries it has already passed).
\<close>

fun posts_of :: "(nat \<Rightarrow> fetch_result) \<Rightarrow> nat \<Rightarrow> entry list \<Rightarrow> nat list \<Rightarrow> post list" where
  "posts_of net k os [] = []"
| "posts_of net k os (a # rest) =
     (if synced (os ! a) then posts_of net k os rest
      else \<lparr> target = a, sent = sync_request (os ! a), outcome = net k \<rparr> #
           (case net k of NetworkError \<Rightarrow> [] | Response status \<Rightarrow> posts_of net (Suc k) os rest))"

text \<open>The store after \<open>entry.synced = true\<close> on the object at address \<open>a\<close>.\<close>

definition flag :: "nat \<Rightarrow> entry list \<Rightarrow> entry list" where
  "flag a os = os[a := (os ! a)\<lparr> synced := True \<rparr>]"

subsection \<open>Histories\<close>

text \<open>How many accepted requests the log holds for the object at address \<open>a\<close>.\<close>

definition accepted_count :: "page \<Rightarrow> nat \<Rightarrow> nat" where
  "accepted_count s a = count_list (accepted_targets (net_log s)) a"

text \<open>
  What holds of the page between two operations: the array is well formed, storage holds the
  array as it is, and an object is either in the array, not flagged and never accepted, or
  out of the array, flagged and accepted once.
\<close>

definition consistent :: "page \<Rightarrow> bool" where
  "consistent s =
     (wf_page s \<and> persisted s = snapshot s \<and>
      (\<forall>p\<in>set (net_log s). target p < length (objs s)) \<and>
      (\<forall>a<length (objs s).
         if a \<in> set (pendingEntries s)
         then \<not> synced (objs s ! a) \<and> accepted_count s a = 0
         else synced (objs s ! a) \<and> accepted_count s a = 1))"

text \<open>The entries that the appends of a history created, in order.\<close>

fun appended :: "op list \<Rightarrow> entry list" where
  "appended [] = []"
| "appended (Append now entryData # ops) = new_entry now entryData # appended ops"
| "appended (Drain # ops) = appended ops"

text \<open>An entry as it was appended: with its flag off.\<close>

definition unflag :: "entry \<Rightarrow> entry" where
  "unflag e = e\<lparr> synced := False \<rparr>"

text \<open>
  The page inside a pass that begins at \<open>s\<close>, after the first \<open>k\<close> rounds of the loop (or at
  the loop's end, when it ended before): nothing has been written to storage yet.
\<close>

definition mid_pass :: "(nat \<Rightarrow> fetch_result) \<Rightarrow> nat \<Rightarrow> page \<Rightarrow> page" where
  "mid_pass net k s = snd (sync_loop net (take k (pendingEntries s)) [] s)"

text \<open>The clock values that the appends of a history read, in order.\<close>

fun stamps :: "op list \<Rightarrow> nat list" where
  "stamps [] = []"
| "stamps (Append now entryData # ops) = now # stamps ops"
| "stamps (Drain # ops) = stamps ops"

subsection \<open>Sample entries\<close>

definition data_A :: entry_data where
  "data_A = \<lparr> client = Some ''Acme'', matter = Some ''Merger'', date_of_work = Some ''2024-01-05'',
      hours = 3 / 2, timekeeper = Some ''JS'', desc = Some ''Draft'' \<rparr>"

definition data_B :: entry_data where
  "data_B = \<lparr> client = Some ''Bolt'', matter = Some ''Lease'', date_of_work = Some ''2024-01-06'',
      hours = 2, timekeeper = None, desc = Some ''Call'' \<rparr>"

definition data_C :: entry_data where
  "data_C = \<lparr> client = Some ''Cole'', matter = None, date_of_work = Some ''2024-01-07'',
      hours = 1 / 4, timekeeper = Some ''MK'', desc = None \<rparr>"

definition entry_A :: entry where
  "entry_A = new_entry 1 data_A"

definition entry_B :: entry where
  "entry_B = new_entry 2 data_B"

definition entry_C :: entry where
  "entry_C = new_entry 3 data_C"

subsection \<open>Sample environments\<close>

definition net_ok :: "nat \<Rightarrow> fetch_result" where
  "net_ok k = Response 200"

definition net_fail_second :: "nat \<Rightarrow> fetch_result" where
  "net_fail_second k = (if k = 1 then NetworkError else Response 200)"

definition net_reject_first :: "nat \<Rightarrow> fetch_result" where
  "net_reject_first k = (if k = 0 then Response 422 else Response 200)"

section \<open>The drain loop\<close>

text \<open>
  The loop is described by three facts, each for an array that holds every object once:
  what it adds to the log (\<open>loop_log\<close>), which objects it flags (\<open>loop_objs\<close>), and what
  it leaves alone (\<open>loop_frame\<close>). The facts about a whole pass follow from them.
\<close>

lemma posts_of_cong:
  "(\<And>b. b \<in> set as \<Longrightarrow> os ! b = os' ! b) \<Longrightarrow> posts_of net k os as = posts_of net k os' as"
  by (induction as arbitrary: k) (auto split: fetch_result.splits)

lemma record_post_simps [simp]:
  "objs (record_post a r s) = objs s"
  "pendingEntries (record_post a r s) = pendingEntries s"
  "storage (record_post a r s) = storage s"
  "net_log (record_post a r s) = net_log s @ [\<lparr> target = a, sent = sync_request (objs s ! a), outcome = r \<rparr>]"
  by (simp_all add: record_post_def)

lemma mark_synced_simps [simp]:
  "objs (mark_synced a s) = flag a (objs s)"
  "pendingEntries (mark_synced a s) = pendingEntries s"
  "storage (mark_synced a s) = storage s"
  "net_log (mark_synced a s) = net_log s"
  by (simp_all add: mark_synced_def flag_def)

lemma flag_nth_other: "a \<noteq> b \<Longrightarrow> flag a os ! b = os ! b"
  by (simp add: flag_def)

lemma length_flag [simp]: "length (flag a os) = length os"
  by (simp add: flag_def)

lemma loop_log:
  "distinct as \<Longrightarrow>
   net_log (snd (sync_loop net as succ s)) = net_log s @ posts_of net (length (net_log s)) (objs s) as"
proof (induction as arbitrary: succ s)
  case Nil
  then show ?case by simp
next
  case (Cons a rest)
  have same: "posts_of net k (flag a (objs s)) rest = posts_of net k (objs s) rest" for k
    using Cons.prems by (intro posts_of_cong flag_nth_other) auto
  show ?case
  proof (cases "synced (objs s ! a)")
    case True
    then show ?thesis using Cons by simp
  next
    case False
    show ?thesis
    proof (cases "net (length (net_log s))")
      case NetworkError
      then show ?thesis using False by simp
    next
      case (Response status)
      then show ?thesis using False Cons same by simp
    qed
  qed
qed

lemma loop_frame:
  "pendingEntries (snd (sync_loop net as succ s)) = pendingEntries s \<and>
   storage (snd (sync_loop net as succ s)) = storage s \<and>
   length (objs (snd (sync_loop net as succ s))) = length (objs s)"
  by (induction as arbitrary: succ s) (auto split: fetch_result.splits)

lemma posts_of_target:
  "p \<in> set (posts_of net k os as) \<Longrightarrow>
   target p \<in> set as \<and> \<not> synced (os ! target p) \<and> sent p = sync_request (os ! target p)"
  by (induction as arbitrary: k) (auto split: if_splits fetch_result.splits)

lemma loop_objs:
  "distinct as \<Longrightarrow> \<forall>a\<in>set as. a < length (objs s) \<Longrightarrow>
   objs (snd (sync_loop net as succ s)) ! b =
     (if b \<in> set (accepted_targets (posts_of net (length (net_log s)) (objs s) as))
      then (objs s ! b)\<lparr> synced := True \<rparr> else objs s ! b)"
proof (induction as arbitrary: succ s)
  case Nil
  then show ?case by (simp add: accepted_targets_def)
next
  case (Cons a rest)
  have same: "posts_of net k (flag a (objs s)) rest = posts_of net k (objs s) rest" for k
    using Cons.prems by (intro posts_of_cong flag_nth_other) auto
  have notin: "a \<notin> set (accepted_targets (posts_of net k (objs s) rest))" for k
    using Cons.prems(1) posts_of_target[of _ net k "objs s" rest]
    by (auto simp: accepted_targets_def)
  have d: "distinct rest" and v: "\<forall>a\<in>set rest. a < length (objs s)" and va: "a < length (objs s)"
    using Cons.prems by auto
  show ?case
  proof (cases "synced (objs s ! a)")
    case True
    then show ?thesis using Cons.IH[OF d v] by simp
  next
    case False
    show ?thesis
    proof (cases "net (length (net_log s))")
      case NetworkError
      then show ?thesis using False by (simp add: accepted_targets_def accepted_def)
    next
      case (Response status)
      show ?thesis
      proof (cases "ok status")
        case True
        let ?s1 = "mark_synced a (record_post a (Response status) s)"
        have v1: "\<forall>a\<in>set rest. a < length (objs ?s1)" using v by simp
        have "objs (snd (sync_loop net (a # rest) succ s)) ! b =
              objs (snd (sync_loop net rest (succ @ [a]) ?s1)) ! b"
          using False Response True by simp
        also have "\<dots> = (if b \<in> set (accepted_targets (posts_of net (Suc (length (net_log s))) (objs s) rest))
                          then (flag a (objs s) ! b)\<lparr> synced := True \<rparr> else flag a (objs s) ! b)"
          using Cons.IH[OF d v1, of "succ @ [a]"] same by simp
        finally show ?thesis
          using False Response True notin va
          by (cases "b = a") (auto simp: accepted_targets_def accepted_def flag_def)
      next
        case F2: False
        let ?s1 = "record_post a (Response status) s"
        have v1: "\<forall>a\<in>set rest. a < length (objs ?s1)" using v by simp
        show ?thesis using False Response F2 Cons.IH[OF d v1, of succ]
          by (simp add: accepted_targets_def accepted_def)
      qed
    qed
  qed
qed

lemma loop_succ:
  "distinct as \<Longrightarrow>
   fst (sync_loop net as succ s) =
     succ @ accepted_targets (posts_of net (length (net_log s)) (objs s) as)"
proof (induction as arbitrary: succ s)
  case Nil
  then show ?case by (simp add: accepted_targets_def)
next
  case (Cons a rest)
  have same: "posts_of net k (flag a (objs s)) rest = posts_of net k (objs s) rest" for k
    using Cons.prems by (intro posts_of_cong flag_nth_other) auto
  show ?case using Cons same
    by (auto simp: accepted_targets_def accepted_def split: fetch_result.splits)
qed

lemma posts_of_prefix:
  "map target (posts_of net k os as) =
     take (length (posts_of net k os as)) (filter (\<lambda>a. \<not> synced (os ! a)) as)"
  by (induction as arbitrary: k) (auto split: fetch_result.splits)

lemma posts_of_outcome:
  "i < length (posts_of net k os as) \<Longrightarrow> outcome (posts_of net k os as ! i) = net (k + i)"
proof (induction as arbitrary: k i)
  case Nil
  then show ?case by simp
next
  case (Cons a rest)
  then show ?case
    by (cases i) (auto split: if_splits fetch_result.splits)
qed

lemma posts_of_error_last:
  "i < length (posts_of net k os as) \<Longrightarrow> outcome (posts_of net k os as ! i) = NetworkError \<Longrightarrow>
   Suc i = length (posts_of net k os as)"
proof (induction as arbitrary: k i)
  case Nil
  then show ?case by simp
next
  case (Cons a rest)
  then show ?case
    by (cases i) (auto split: if_splits fetch_result.splits)
qed

lemma posts_of_Nil:
  "posts_of net k os as = [] \<longleftrightarrow> filter (\<lambda>a. \<not> synced (os ! a)) as = []"
  by (induction as arbitrary: k) auto

lemma posts_of_continue:
  "i < length (posts_of net k os as) \<Longrightarrow> outcome (posts_of net k os as ! i) \<noteq> NetworkError \<Longrightarrow>
   Suc i < length (filter (\<lambda>a. \<not> synced (os ! a)) as) \<Longrightarrow>
   Suc i < length (posts_of net k os as)"
proof (induction as arbitrary: k i)
  case Nil
  then show ?case by simp
next
  case (Cons a rest)
  show ?case
  proof (cases "synced (os ! a)")
    case True
    then show ?thesis using Cons by simp
  next
    case False
    show ?thesis
    proof (cases i)
      case 0
      then show ?thesis using False Cons.prems posts_of_Nil[of net "Suc k" os rest]
        by (auto split: fetch_result.splits)
    next
      case (Suc j)
      then show ?thesis using False Cons.prems Cons.IH[of j "Suc k"]
        by (auto split: fetch_result.splits)
    qed
  qed
qed

lemma pass_log_eq:
  assumes "wf_page s"
  shows "pass_log net s = posts_of net (length (net_log s)) (objs s) (pendingEntries s)"
    and "net_log (syncPendingEntries net s) = net_log s @ pass_log net s"
proof -
  have d: "distinct (pendingEntries s)" using assms by (simp add: wf_page_def)
  show "pass_log net s = posts_of net (length (net_log s)) (objs s) (pendingEntries s)"
    using loop_log[OF d, of net "[]" s]
    by (cases "pendingEntries s = []") (simp_all add: pass_log_def syncPendingEntries_def Let_def)
  then show "net_log (syncPendingEntries net s) = net_log s @ pass_log net s"
    using loop_log[OF d, of net "[]" s]
    by (cases "pendingEntries s = []") (simp_all add: syncPendingEntries_def Let_def)
qed

lemma pass_objs:
  assumes "wf_page s"
  shows "objs (syncPendingEntries net s) ! b =
     (if b \<in> set (accepted_targets (pass_log net s)) then (objs s ! b)\<lparr> synced := True \<rparr>
      else objs s ! b)"
    and "length (objs (syncPendingEntries net s)) = length (objs s)"
proof -
  have d: "distinct (pendingEntries s)" and v: "\<forall>a\<in>set (pendingEntries s). a < length (objs s)"
    using assms by (simp_all add: wf_page_def)
  show "objs (syncPendingEntries net s) ! b =
     (if b \<in> set (accepted_targets (pass_log net s)) then (objs s ! b)\<lparr> synced := True \<rparr>
      else objs s ! b)"
    using loop_objs[OF d v, of net "[]" b] pass_log_eq(1)[OF assms, of net]
    by (cases "pendingEntries s = []")
       (simp_all add: syncPendingEntries_def Let_def accepted_targets_def)
  show "length (objs (syncPendingEntries net s)) = length (objs s)"
    using loop_frame[of net "pendingEntries s" "[]" s]
    by (simp add: syncPendingEntries_def Let_def)
qed

lemma pass_pending:
  assumes "wf_page s"
  shows "pendingEntries (syncPendingEntries net s) =
           filter (\<lambda>a. \<not> synced (objs s ! a) \<and> a \<notin> set (accepted_targets (pass_log net s)))
             (pendingEntries s)"
proof -
  have d: "distinct (pendingEntries s)" and v: "\<forall>a\<in>set (pendingEntries s). a < length (objs s)"
    using assms by (simp_all add: wf_page_def)
  let ?s1 = "snd (sync_loop net (pendingEntries s) [] s)"
  have o: "objs ?s1 ! b =
     (if b \<in> set (accepted_targets (pass_log net s)) then (objs s ! b)\<lparr> synced := True \<rparr>
      else objs s ! b)" for b
    using loop_objs[OF d v, of net "[]" b] pass_log_eq(1)[OF assms, of net] by simp
  have "filter (\<lambda>a. \<not> synced (objs ?s1 ! a)) (pendingEntries s) =
        filter (\<lambda>a. \<not> synced (objs s ! a) \<and> a \<notin> set (accepted_targets (pass_log net s)))
             (pendingEntries s)"
    by (rule filter_cong) (auto simp: o)
  then show ?thesis
    using loop_frame[of net "pendingEntries s" "[]" s]
    by (cases "pendingEntries s = []") (simp_all add: syncPendingEntries_def Let_def)
qed

lemma pass_storage:
  assumes "wf_page s" "pendingEntries s \<noteq> []"
  shows "storage (syncPendingEntries net s) =
           Some (map (\<lambda>a. objs s ! a) (pendingEntries (syncPendingEntries net s)))"
proof -
  have "storage (syncPendingEntries net s) = Some (snapshot (syncPendingEntries net s))"
    using assms(2) by (simp add: syncPendingEntries_def Let_def snapshot_def)
  moreover have "snapshot (syncPendingEntries net s) =
      map (\<lambda>a. objs s ! a) (pendingEntries (syncPendingEntries net s))"
    unfolding snapshot_def
    by (rule map_cong) (auto simp: pass_objs(1)[OF assms(1)] pass_pending[OF assms(1)])
  ultimately show ?thesis by simp
qed

lemma wf_loaded: "wf_page (loaded q)"
  by (simp add: wf_page_def loaded_def)


lemma pass_targets_prefix:
  assumes "wf_page s"
  shows "map target (pass_log net s) = take (length (pass_log net s)) (unflagged s)"
  using posts_of_prefix[of net "length (net_log s)" "objs s" "pendingEntries s"]
  by (simp add: pass_log_eq(1)[OF assms] unflagged_def)

lemma pass_complete:
  assumes "wf_page s" "\<forall>p\<in>set (pass_log net s). outcome p \<noteq> NetworkError"
  shows "map target (pass_log net s) = unflagged s"
proof -
  let ?L = "pass_log net s"
  have eq: "?L = posts_of net (length (net_log s)) (objs s) (pendingEntries s)"
    by (rule pass_log_eq(1)[OF assms(1)])
  have "\<not> length ?L < length (unflagged s)"
  proof
    assume less: "length ?L < length (unflagged s)"
    show False
    proof (cases "?L = []")
      case True
      then have "unflagged s = []"
        using posts_of_Nil[of net "length (net_log s)" "objs s" "pendingEntries s"]
        by (simp add: eq unflagged_def)
      then show False using less by simp
    next
      case False
      then obtain i where i: "Suc i = length ?L" by (cases ?L) auto
      then have "?L ! i \<in> set ?L" by (metis lessI nth_mem)
      then have "outcome (?L ! i) \<noteq> NetworkError" using assms(2) by blast
      then have "Suc i < length ?L"
        using posts_of_continue[of i net "length (net_log s)" "objs s" "pendingEntries s"] i less
        by (simp add: eq unflagged_def)
      then show False using i by simp
    qed
  qed
  then show ?thesis using pass_targets_prefix[OF assms(1), of net] by simp
qed

lemma pass_sent:
  assumes "wf_page s" "i < length (pass_log net s)"
  shows "sent (pass_log net s ! i) = sync_request (objs s ! target (pass_log net s ! i))"
    and "outcome (pass_log net s ! i) = net (length (net_log s) + i)"
    and "target (pass_log net s ! i) = unflagged s ! i"
proof -
  have eq: "pass_log net s = posts_of net (length (net_log s)) (objs s) (pendingEntries s)"
    by (rule pass_log_eq(1)[OF assms(1)])
  have "pass_log net s ! i \<in> set (pass_log net s)" using assms(2) by simp
  then show "sent (pass_log net s ! i) = sync_request (objs s ! target (pass_log net s ! i))"
    using posts_of_target[of _ net "length (net_log s)" "objs s" "pendingEntries s"]
    by (simp add: eq)
  show "outcome (pass_log net s ! i) = net (length (net_log s) + i)"
    using posts_of_outcome[of i net "length (net_log s)" "objs s" "pendingEntries s"] assms(2)
    by (simp add: eq)
  have "map target (pass_log net s) ! i = take (length (pass_log net s)) (unflagged s) ! i"
    using pass_targets_prefix[OF assms(1), of net] by simp
  then show "target (pass_log net s ! i) = unflagged s ! i"
    using assms(2) by simp
qed


lemma posts_of_abort:
  "p \<in> set (posts_of net k os (pre @ a # post)) \<Longrightarrow> target p = a \<Longrightarrow> outcome p = NetworkError \<Longrightarrow>
   distinct (pre @ a # post) \<Longrightarrow> p' \<in> set (posts_of net k os (pre @ a # post)) \<Longrightarrow>
   target p' \<notin> set post"
proof (induction pre arbitrary: k)
  case Nil
  show ?case
  proof (cases "synced (os ! a)")
    case True
    then have "p \<in> set (posts_of net k os post)" using Nil.prems(1) by simp
    then have "a \<in> set post" using posts_of_target[of p net k os post] Nil.prems(2) by simp
    then show ?thesis using Nil.prems(4) by simp
  next
    case False
    show ?thesis
    proof (cases "net k")
      case NetworkError
      then show ?thesis using False Nil.prems by auto
    next
      case (Response status)
      then have "p \<in> set (posts_of net (Suc k) os post)"
        using False Nil.prems(1,3) by auto
      then have "a \<in> set post" using posts_of_target[of p net "Suc k" os post] Nil.prems(2) by simp
      then show ?thesis using Nil.prems(4) by simp
    qed
  qed
next
  case (Cons b pre)
  have d: "distinct (pre @ a # post)" and ba: "b \<noteq> a" and bp: "b \<notin> set post"
    using Cons.prems(4) by auto
  show ?case
  proof (cases "synced (os ! b)")
    case True
    then show ?thesis using Cons.IH[of k] Cons.prems d by simp
  next
    case False
    show ?thesis
    proof (cases "net k")
      case NetworkError
      then show ?thesis using False Cons.prems ba by auto
    next
      case (Response status)
      then have pin: "p \<in> set (posts_of net (Suc k) os (pre @ a # post))"
        using False Cons.prems(1,2) ba by auto
      show ?thesis
      proof (cases "p' \<in> set (posts_of net (Suc k) os (pre @ a # post))")
        case True
        then show ?thesis using Cons.IH[OF pin Cons.prems(2,3) d] by simp
      next
        case F: False
        then have "target p' = b" using Cons.prems(5) False Response by auto
        then show ?thesis using bp by simp
      qed
    qed
  qed
qed

lemma pass_persisted:
  assumes "wf_page s" "pendingEntries s \<noteq> []"
  shows "persisted (syncPendingEntries net s) =
           map (\<lambda>a. objs s ! a)
             (filter (\<lambda>a. \<not> synced (objs s ! a) \<and> a \<notin> set (accepted_targets (pass_log net s)))
                (pendingEntries s))"
  by (simp add: persisted_def pass_storage[OF assms] pass_pending[OF assms(1)])

lemma pass_log_nonempty: "pass_log net s \<noteq> [] \<Longrightarrow> pendingEntries s \<noteq> []"
  by (auto simp: pass_log_def syncPendingEntries_def)


lemma loaded_simps [simp]:
  "objs (loaded q) = q" "pendingEntries (loaded q) = [0..<length q]"
  "storage (loaded q) = Some q" "net_log (loaded q) = []"
  by (simp_all add: loaded_def)

lemma abort_instance:
  assumes "\<not> synced A" "\<not> synced B" "\<not> synced C"
    "net 0 = Response status" "ok status" "net 1 = NetworkError"
  shows "persisted (syncPendingEntries net (loaded [A, B, C])) = [B, C] \<and>
         map target (pass_log net (loaded [A, B, C])) = [0, 1]"
proof -
  have L: "pass_log net (loaded [A, B, C]) =
      [\<lparr> target = 0, sent = sync_request A, outcome = Response status \<rparr>,
       \<lparr> target = 1, sent = sync_request B, outcome = NetworkError \<rparr>]"
    using assms by (simp add: pass_log_eq(1)[OF wf_loaded])
  have "persisted (syncPendingEntries net (loaded [A, B, C])) = [B, C]"
    using assms
    by (simp add: pass_persisted[OF wf_loaded] L accepted_targets_def accepted_def)
  then show ?thesis using L by simp
qed

lemma reject_instance:
  assumes "\<not> synced A" "\<not> synced B"
    "net 0 = Response status" "\<not> ok status" "net 1 = Response status'" "ok status'"
  shows "persisted (syncPendingEntries net (loaded [A, B])) = [A]"
proof -
  have L: "pass_log net (loaded [A, B]) =
      [\<lparr> target = 0, sent = sync_request A, outcome = Response status \<rparr>,
       \<lparr> target = 1, sent = sync_request B, outcome = Response status' \<rparr>]"
    using assms by (simp add: pass_log_eq(1)[OF wf_loaded])
  show ?thesis
    using assms
    by (simp add: pass_persisted[OF wf_loaded] L accepted_targets_def accepted_def)
qed

lemma rejected_kept:
  assumes "wf_page s" "i < length (pass_log net s)"
    "outcome (pass_log net s ! i) = Response status" "\<not> ok status"
  shows "target (pass_log net s ! i) \<in> set (pendingEntries (syncPendingEntries net s))"
    and "objs s ! target (pass_log net s ! i) \<in> set (persisted (syncPendingEntries net s))"
    and "Suc i < length (unflagged s) \<longrightarrow>
           Suc i < length (pass_log net s) \<and> target (pass_log net s ! Suc i) = unflagged s ! Suc i"
proof -
  let ?L = "pass_log net s"
  let ?a = "target (?L ! i)"
  have eq: "?L = posts_of net (length (net_log s)) (objs s) (pendingEntries s)"
    by (rule pass_log_eq(1)[OF assms(1)])
  have d: "distinct (pendingEntries s)" using assms(1) by (simp add: wf_page_def)
  have mem: "?L ! i \<in> set ?L" using assms(2) by simp
  then have a: "?a \<in> set (pendingEntries s)" "\<not> synced (objs s ! ?a)"
    using posts_of_target[of "?L ! i" net "length (net_log s)" "objs s" "pendingEntries s"]
    by (simp_all add: eq[symmetric])
  have dt: "distinct (map target ?L)"
    using pass_targets_prefix[OF assms(1), of net] d by (simp add: unflagged_def)
  have "?a \<notin> set (accepted_targets ?L)"
  proof
    assume "?a \<in> set (accepted_targets ?L)"
    then obtain p where p: "p \<in> set ?L" "accepted p" "target p = ?a"
      by (auto simp: accepted_targets_def)
    then obtain j where j: "j < length ?L" "?L ! j = p" by (auto simp: in_set_conv_nth)
    then have "map target ?L ! j = map target ?L ! i" using p(3) assms(2) by simp
    moreover have "j < length (map target ?L)" "i < length (map target ?L)"
      using j(1) assms(2) by simp_all
    ultimately have "j = i" using dt nth_eq_iff_index_eq by blast
    then show False using p(2) j(2) assms(3,4) by (simp add: accepted_def)
  qed
  then show 1: "?a \<in> set (pendingEntries (syncPendingEntries net s))"
    using a by (simp add: pass_pending[OF assms(1)])
  have ne: "pendingEntries s \<noteq> []" using a(1) by auto
  show "objs s ! ?a \<in> set (persisted (syncPendingEntries net s))"
    using 1 by (simp add: persisted_def pass_storage[OF assms(1) ne])
  show "Suc i < length (unflagged s) \<longrightarrow>
           Suc i < length ?L \<and> target (?L ! Suc i) = unflagged s ! Suc i"
  proof
    assume n: "Suc i < length (unflagged s)"
    have "outcome (posts_of net (length (net_log s)) (objs s) (pendingEntries s) ! i) \<noteq> NetworkError"
      using assms(3) by (simp add: eq[symmetric])
    then have "Suc i < length (posts_of net (length (net_log s)) (objs s) (pendingEntries s))"
      using posts_of_continue[of i net "length (net_log s)" "objs s" "pendingEntries s"] assms(2) n
      by (simp add: eq[symmetric] unflagged_def)
    then have s: "Suc i < length ?L" by (simp add: eq[symmetric])
    then show "Suc i < length ?L \<and> target (?L ! Suc i) = unflagged s ! Suc i"
      using pass_sent(3)[OF assms(1) s] by simp
  qed
qed

lemma pass_log_at:
  assumes "wf_page s" "i < length (pass_log net s)"
  shows "\<not> synced (objs s ! target (pass_log net s ! i))"
    and "outcome (pass_log net s ! i) = net (length (net_log s) + i)"
proof -
  have "pass_log net s ! i \<in> set (pass_log net s)" using assms(2) by simp
  then show "\<not> synced (objs s ! target (pass_log net s ! i))"
    using posts_of_target[of _ net "length (net_log s)" "objs s" "pendingEntries s"]
    by (simp add: pass_log_eq(1)[OF assms(1)])
  show "outcome (pass_log net s ! i) = net (length (net_log s) + i)"
    by (rule pass_sent(2)[OF assms])
qed

lemma two_posts:
  assumes "take 2 (map target (pass_log net (loaded q))) = [0, 1]"
    and "take 2 (map outcome (pass_log net (loaded q))) = [r0, r1]"
  shows "\<not> synced (q ! 0) \<and> \<not> synced (q ! 1) \<and> net 0 = r0 \<and> net 1 = r1"
proof -
  let ?L = "pass_log net (loaded q)"
  have "length (take 2 (map target ?L)) = 2" by (simp only: assms(1)) simp
  then have "2 \<le> length ?L" by simp
  then have i0: "0 < length ?L" and i1: "1 < length ?L" by linarith+
  have "take 2 (map target ?L) ! 0 = 0" "take 2 (map target ?L) ! 1 = 1"
    by (simp_all only: assms(1) nth_Cons_0 nth_Cons_Suc One_nat_def)
  then have t0: "target (?L ! 0) = 0" and t1: "target (?L ! 1) = 1"
    using i0 i1 by simp_all
  have "take 2 (map outcome ?L) ! 0 = r0" "take 2 (map outcome ?L) ! 1 = r1"
    by (simp_all only: assms(2) nth_Cons_0 nth_Cons_Suc One_nat_def)
  then have o0: "outcome (?L ! 0) = r0" and o1: "outcome (?L ! 1) = r1"
    using i0 i1 by simp_all
  show ?thesis
    using pass_log_at[OF wf_loaded i0] pass_log_at[OF wf_loaded i1] t0 t1 o0 o1
    by simp
qed

lemma abort_by_outcomes:
  assumes "take 2 (map target (pass_log net (loaded [A, B, C]))) = [0, 1]"
    and "take 2 (map outcome (pass_log net (loaded [A, B, C]))) = [Response status, NetworkError]"
    and "ok status" "\<not> synced C"
  shows "persisted (syncPendingEntries net (loaded [A, B, C])) = [B, C] \<and>
         map target (pass_log net (loaded [A, B, C])) = [0, 1]"
  using two_posts[OF assms(1,2)] assms(3,4) abort_instance[of A B C net status] by simp

lemma reject_by_outcomes:
  assumes "take 2 (map target (pass_log net (loaded [A, B]))) = [0, 1]"
    and "take 2 (map outcome (pass_log net (loaded [A, B]))) = [Response status, Response status']"
    and "\<not> ok status" "ok status'"
  shows "persisted (syncPendingEntries net (loaded [A, B])) = [A]"
  using two_posts[OF assms(1,2)] assms(3,4) reject_instance[of A B net status status'] by simp

section \<open>Histories of appends and passes\<close>

text \<open>
  \<open>consistent\<close> holds of the empty page and is kept by an append and by a pass, hence by
  every history; inside a pass it yields the facts of \<open>mid_pass_props\<close>.
\<close>

lemma count_list_distinct:
  "distinct xs \<Longrightarrow> count_list xs a = (if a \<in> set xs then 1 else 0)"
  by (induction xs) auto

lemma accepted_targets_append [simp]:
  "accepted_targets (xs @ ys) = accepted_targets xs @ accepted_targets ys"
  by (simp add: accepted_targets_def)

lemma count_list_append [simp]:
  "count_list (xs @ ys) a = count_list xs a + count_list ys a"
  by (induction xs) auto

lemma consistent_init: "consistent init"
  by (simp add: consistent_def init_def wf_page_def persisted_def snapshot_def)

lemma accepted_targets_mem:
  "a \<in> set (accepted_targets ps) \<longleftrightarrow> (\<exists>p\<in>set ps. target p = a \<and> accepted p)"
  by (auto simp: accepted_targets_def)

lemma consistent_save:
  assumes "consistent s"
  shows "consistent (saveOfflineEntry now d s)"
proof -
  let ?n = "length (objs s)"
  let ?s' = "saveOfflineEntry now d s"
  have w: "wf_page s" and t: "\<forall>p\<in>set (net_log s). target p < ?n"
    and c: "\<forall>a<?n. if a \<in> set (pendingEntries s)
         then \<not> synced (objs s ! a) \<and> accepted_count s a = 0
         else synced (objs s ! a) \<and> accepted_count s a = 1"
    using assms by (simp_all add: consistent_def)
  have o: "objs ?s' = objs s @ [new_entry now d]"
    and q: "pendingEntries ?s' = pendingEntries s @ [?n]"
    and l: "net_log ?s' = net_log s"
    and st: "persisted ?s' = snapshot ?s'"
    by (simp_all add: saveOfflineEntry_def Let_def persisted_def snapshot_def)
  have nq: "?n \<notin> set (pendingEntries s)" using w by (auto simp: wf_page_def)
  have 1: "wf_page ?s'"
    using w nq by (auto simp: wf_page_def o q less_Suc_eq)
  have 3: "\<forall>p\<in>set (net_log ?s'). target p < length (objs ?s')"
    using t by (auto simp: o l less_Suc_eq)
  have cnt: "accepted_count ?s' a = accepted_count s a" for a
    by (simp add: accepted_count_def l)
  have "?n \<notin> set (accepted_targets (net_log s))"
    using t by (auto simp: accepted_targets_mem)
  then have cn: "accepted_count s ?n = 0"
    by (simp add: accepted_count_def)
  have 4: "\<forall>a<length (objs ?s').
         if a \<in> set (pendingEntries ?s')
         then \<not> synced (objs ?s' ! a) \<and> accepted_count ?s' a = 0
         else synced (objs ?s' ! a) \<and> accepted_count ?s' a = 1"
  proof (intro allI impI)
    fix a assume a: "a < length (objs ?s')"
    show "if a \<in> set (pendingEntries ?s')
         then \<not> synced (objs ?s' ! a) \<and> accepted_count ?s' a = 0
         else synced (objs ?s' ! a) \<and> accepted_count ?s' a = 1"
    proof (cases "a = ?n")
      case True
      then show ?thesis using cn by (simp add: o q cnt new_entry_def)
    next
      case False
      then have "a < ?n" using a by (simp add: o)
      then show ?thesis using c False by (simp add: o q cnt nth_append)
    qed
  qed
  show ?thesis unfolding consistent_def using 1 st 3 4 by blast
qed

lemma consistent_sync:
  assumes "consistent s"
  shows "consistent (syncPendingEntries net s)"
proof (cases "pendingEntries s = []")
  case True
  then show ?thesis using assms by (simp add: syncPendingEntries_def)
next
  case ne: False
  let ?n = "length (objs s)"
  let ?s' = "syncPendingEntries net s"
  let ?L = "pass_log net s"
  let ?acc = "accepted_targets ?L"
  have w: "wf_page s" and t: "\<forall>p\<in>set (net_log s). target p < ?n"
    and c: "\<forall>a<?n. if a \<in> set (pendingEntries s)
         then \<not> synced (objs s ! a) \<and> accepted_count s a = 0
         else synced (objs s ! a) \<and> accepted_count s a = 1"
    using assms by (simp_all add: consistent_def)
  have d: "distinct (pendingEntries s)" and v: "\<forall>a\<in>set (pendingEntries s). a < ?n"
    using w by (simp_all add: wf_page_def)
  have q: "pendingEntries ?s' =
      filter (\<lambda>a. \<not> synced (objs s ! a) \<and> a \<notin> set ?acc) (pendingEntries s)"
    by (rule pass_pending[OF w])
  have len: "length (objs ?s') = ?n" by (rule pass_objs(2)[OF w])
  have o: "objs ?s' ! b = (if b \<in> set ?acc then (objs s ! b)\<lparr> synced := True \<rparr> else objs s ! b)" for b
    by (rule pass_objs(1)[OF w])
  have l: "net_log ?s' = net_log s @ ?L" by (rule pass_log_eq(2)[OF w])
  have Lt: "target p \<in> set (pendingEntries s)" if "p \<in> set ?L" for p
    using that posts_of_target[of p net "length (net_log s)" "objs s" "pendingEntries s"]
    by (simp add: pass_log_eq(1)[OF w])
  have accq: "a \<in> set (pendingEntries s)" if "a \<in> set ?acc" for a
    using that Lt by (auto simp: accepted_targets_mem)
  have "distinct (map target ?L)"
    using pass_targets_prefix[OF w, of net] d by (simp add: unflagged_def)
  then have dacc: "distinct ?acc"
    unfolding accepted_targets_def by (rule distinct_map_filter)
  have cnt: "accepted_count ?s' a = accepted_count s a + (if a \<in> set ?acc then 1 else 0)" for a
    by (simp add: accepted_count_def l count_list_distinct[OF dacc])
  have 1: "wf_page ?s'" using d v by (simp add: wf_page_def q len)
  have 2: "persisted ?s' = snapshot ?s'"
    using ne by (simp add: syncPendingEntries_def Let_def persisted_def snapshot_def)
  have 3: "\<forall>p\<in>set (net_log ?s'). target p < length (objs ?s')"
    using t Lt v by (auto simp: l len)
  have 4: "\<forall>a<length (objs ?s').
         if a \<in> set (pendingEntries ?s')
         then \<not> synced (objs ?s' ! a) \<and> accepted_count ?s' a = 0
         else synced (objs ?s' ! a) \<and> accepted_count ?s' a = 1"
  proof (intro allI impI)
    fix a assume "a < length (objs ?s')"
    then have a: "a < ?n" by (simp add: len)
    show "if a \<in> set (pendingEntries ?s')
         then \<not> synced (objs ?s' ! a) \<and> accepted_count ?s' a = 0
         else synced (objs ?s' ! a) \<and> accepted_count ?s' a = 1"
    proof (cases "a \<in> set (pendingEntries s)")
      case True
      then have "\<not> synced (objs s ! a)" "accepted_count s a = 0" using c a by simp_all
      then show ?thesis using True by (simp add: q o cnt)
    next
      case False
      then have "synced (objs s ! a)" "accepted_count s a = 1" "a \<notin> set ?acc"
        using c a accq by auto
      then show ?thesis using False by (simp add: q o cnt)
    qed
  qed
  show ?thesis unfolding consistent_def using 1 2 3 4 by blast
qed

lemma consistent_step: "consistent s \<Longrightarrow> consistent (step net s x)"
  by (cases x) (simp_all add: consistent_save consistent_sync)

lemma consistent_run: "consistent s \<Longrightarrow> consistent (run net ops s)"
  unfolding run_def by (induction ops arbitrary: s) (simp_all add: consistent_step)

lemma unflag_flag: "map unflag (flag a os) = map unflag os"
proof (cases "a < length os")
  case True
  have "map unflag (flag a os) = (map unflag os)[a := unflag (os ! a)]"
    by (simp add: flag_def map_update unflag_def)
  also have "\<dots> = map unflag os" using True by (simp add: list_update_same_conv)
  finally show ?thesis .
next
  case False
  then have "os[a := (os ! a)\<lparr> synced := True \<rparr>] = os" by (simp add: list_update_beyond)
  then show ?thesis by (simp add: flag_def)
qed

lemma loop_unflag: "map unflag (objs (snd (sync_loop net as succ s))) = map unflag (objs s)"
  by (induction as arbitrary: succ s) (auto simp: unflag_flag split: fetch_result.splits)

lemma sync_unflag: "map unflag (objs (syncPendingEntries net s)) = map unflag (objs s)"
  by (simp add: syncPendingEntries_def Let_def loop_unflag)

lemma save_unflag:
  "map unflag (objs (saveOfflineEntry now d s)) = map unflag (objs s) @ [new_entry now d]"
  by (simp add: saveOfflineEntry_def Let_def unflag_def new_entry_def)

lemma run_Cons: "run net (x # ops) s = run net ops (step net s x)"
  by (simp add: run_def)

lemma run_Nil: "run net [] s = s"
  by (simp add: run_def)

lemma run_unflag: "map unflag (objs (run net ops s)) = map unflag (objs s) @ appended ops"
proof (induction ops arbitrary: s)
  case Nil
  then show ?case by (simp add: run_Nil)
next
  case (Cons x ops)
  then show ?case by (cases x) (simp_all add: run_Cons save_unflag sync_unflag)
qed


lemma run_later:
  "consistent s \<Longrightarrow>
   \<exists>new. net_log (run net ops s) = net_log s @ new \<and>
     (\<forall>p\<in>set new. target p \<in> set (pendingEntries s) \<or> length (objs s) \<le> target p) \<and>
     (\<forall>a\<in>set (pendingEntries (run net ops s)). a \<in> set (pendingEntries s) \<or> length (objs s) \<le> a) \<and>
     length (objs s) \<le> length (objs (run net ops s))"
proof (induction ops arbitrary: s)
  case Nil
  then show ?case by (simp add: run_Nil)
next
  case (Cons x ops)
  let ?s1 = "step net s x"
  have c1: "consistent ?s1" by (rule consistent_step[OF Cons.prems])
  have w: "wf_page s" using Cons.prems by (simp add: consistent_def)
  from Cons.IH[OF c1] obtain new where
    n1: "net_log (run net ops ?s1) = net_log ?s1 @ new"
    and n2: "\<forall>p\<in>set new. target p \<in> set (pendingEntries ?s1) \<or> length (objs ?s1) \<le> target p"
    and n3: "\<forall>a\<in>set (pendingEntries (run net ops ?s1)).
               a \<in> set (pendingEntries ?s1) \<or> length (objs ?s1) \<le> a"
    and n4: "length (objs ?s1) \<le> length (objs (run net ops ?s1))"
    by blast
  have step: "\<exists>new1. net_log ?s1 = net_log s @ new1 \<and>
      (\<forall>p\<in>set new1. target p \<in> set (pendingEntries s)) \<and>
      (\<forall>a\<in>set (pendingEntries ?s1). a \<in> set (pendingEntries s) \<or> length (objs s) \<le> a) \<and>
      length (objs s) \<le> length (objs ?s1)"
  proof (cases x)
    case (Append now d)
    then show ?thesis by (simp add: saveOfflineEntry_def Let_def)
  next
    case Drain
    have "\<forall>p\<in>set (pass_log net s). target p \<in> set (pendingEntries s)"
      using posts_of_target[of _ net "length (net_log s)" "objs s" "pendingEntries s"]
      by (simp add: pass_log_eq(1)[OF w])
    then show ?thesis
      using Drain pass_log_eq(2)[OF w, of net] pass_pending[OF w, of net] pass_objs(2)[OF w, of net]
      by simp
  qed
  then obtain new1 where
    m1: "net_log ?s1 = net_log s @ new1"
    and m2: "\<forall>p\<in>set new1. target p \<in> set (pendingEntries s)"
    and m3: "\<forall>a\<in>set (pendingEntries ?s1). a \<in> set (pendingEntries s) \<or> length (objs s) \<le> a"
    and m4: "length (objs s) \<le> length (objs ?s1)"
    by blast
  have a: "net_log (run net (x # ops) s) = net_log s @ (new1 @ new)"
    by (simp add: run_Cons n1 m1)
  have b: "\<forall>p\<in>set (new1 @ new). target p \<in> set (pendingEntries s) \<or> length (objs s) \<le> target p"
    using m2 n2 m3 m4 by fastforce
  have cc: "\<forall>a\<in>set (pendingEntries (run net (x # ops) s)).
              a \<in> set (pendingEntries s) \<or> length (objs s) \<le> a"
    using n3 m3 m4 by (fastforce simp: run_Cons)
  have dd: "length (objs s) \<le> length (objs (run net (x # ops) s))"
    using n4 m4 by (simp add: run_Cons)
  show ?case using a b cc dd by blast
qed

lemma digit_char_inj: "d < 10 \<Longrightarrow> d' < 10 \<Longrightarrow> digit_char d = digit_char d' \<Longrightarrow> d = d'"
proof -
  assume a: "d < 10" "d' < 10" "digit_char d = digit_char d'"
  then have "of_char (char_of (48 + d) :: char) = (of_char (char_of (48 + d') :: char) :: nat)"
    by (simp add: digit_char_def)
  then have "(48 + d) mod 256 = (48 + d') mod 256" by simp
  then show "d = d'" using a(1,2) by simp
qed

lemma to_decimal_nonempty: "to_decimal n \<noteq> []"
  by (subst to_decimal.simps) simp

lemma to_decimal_inj: "to_decimal m = to_decimal n \<Longrightarrow> m = n"
proof (induction m arbitrary: n rule: to_decimal.induct)
  case (1 m)
  show ?case
  proof (cases "m < 10")
    case True
    then have m: "to_decimal m = [digit_char m]" by (subst to_decimal.simps) simp
    show ?thesis
    proof (cases "n < 10")
      case T: True
      then have "to_decimal n = [digit_char n]" by (subst to_decimal.simps) simp
      then show ?thesis using m "1.prems" True T digit_char_inj by simp
    next
      case False
      then have "to_decimal n = to_decimal (n div 10) @ [digit_char (n mod 10)]"
        by (subst to_decimal.simps) simp
      then show ?thesis using m "1.prems" to_decimal_nonempty[of "n div 10"] by simp
    qed
  next
    case False
    then have m: "to_decimal m = to_decimal (m div 10) @ [digit_char (m mod 10)]"
      by (subst to_decimal.simps) simp
    show ?thesis
    proof (cases "n < 10")
      case True
      then have "to_decimal n = [digit_char n]" by (subst to_decimal.simps) simp
      then show ?thesis using m "1.prems" to_decimal_nonempty[of "m div 10"] by simp
    next
      case F: False
      then have "to_decimal n = to_decimal (n div 10) @ [digit_char (n mod 10)]"
        by (subst to_decimal.simps) simp
      then have e: "to_decimal (m div 10) = to_decimal (n div 10)"
        and dg: "digit_char (m mod 10) = digit_char (n mod 10)"
        using m "1.prems" by simp_all
      have "m div 10 = n div 10" using "1.IH"[OF False e] .
      moreover have "m mod 10 = n mod 10" using dg by (intro digit_char_inj) simp_all
      ultimately show ?thesis by (metis div_mult_mod_eq)
    qed
  qed
qed

lemma appended_ids: "map id_field (appended ops) = map (\<lambda>n. ''offline_'' @ to_decimal n) (stamps ops)"
  by (induction ops rule: appended.induct) (simp_all add: new_entry_def)

lemma id_unflag [simp]: "id_field (unflag e) = id_field e"
  by (simp add: unflag_def)

section \<open>The request of a drain pass\<close>

text \<open>
  C8, as the code has it. Every request a pass of \<open>syncPendingEntries\<close> issues goes by
  \<open>POST\<close> to \<open>/api/quick-entry\<close>, and its body is the object with exactly the five keys
  \<open>client\<close>, \<open>matter\<close>, \<open>hours\<close>, \<open>desc\<close>, \<open>date_of_work\<close>, holding the values of the entry being
  synced. The entry's \<open>timekeeper\<close> is not part of the body.
\<close>

theorem sync_body_fields:
  assumes "wf_page s" "p \<in> set (pass_log net s)"
  shows "url (sent p) = ''/api/quick-entry'' \<and> http_method (sent p) = ''POST'' \<and>
         body (sent p) =
           JObj [(''client'', opt_js (client (objs s ! target p))),
                 (''matter'', opt_js (matter (objs s ! target p))),
                 (''hours'', JNum (hours (objs s ! target p))),
                 (''desc'', opt_js (desc (objs s ! target p))),
                 (''date_of_work'', opt_js (date_of_work (objs s ! target p)))] \<and>
         body_keys (sent p) = [''client'', ''matter'', ''hours'', ''desc'', ''date_of_work'']"
proof -
  have "sent p = sync_request (objs s ! target p)"
    using assms posts_of_target[of p net "length (net_log s)" "objs s" "pendingEntries s"]
    by (simp add: pass_log_eq(1))
  then show ?thesis by (simp add: sync_request_def body_keys_def)
qed

theorem sync_body_fields_witness:
  "wf_page (loaded [entry_A]) \<and>
   pass_log net_ok (loaded [entry_A]) ! 0 \<in> set (pass_log net_ok (loaded [entry_A])) \<and>
   body_keys (sent (pass_log net_ok (loaded [entry_A]) ! 0)) =
     [''client'', ''matter'', ''hours'', ''desc'', ''date_of_work'']"
proof -
  have h1: "wf_page (loaded [entry_A])" by (rule wf_loaded)
  have h2: "pass_log net_ok (loaded [entry_A]) ! 0
              \<in> set (pass_log net_ok (loaded [entry_A]))"
    by code_simp
  show ?thesis using h1 h2 sync_body_fields[OF h1 h2] by simp
qed

text \<open>
  C8 as stated fails: the one request of a pass over the queue holding \<open>entry_A\<close> (whose
  \<open>timekeeper\<close> is \<open>JS\<close>) has no key \<open>timekeeper\<close> in its body.
\<close>

theorem sync_body_timekeeper_counterexample:
  "length (pass_log net_ok (loaded [entry_A])) = 1 \<and>
   timekeeper entry_A = Some ''JS'' \<and>
   ''timekeeper'' \<notin> set (body_keys (sent (pass_log net_ok (loaded [entry_A]) ! 0)))"
  by code_simp

section \<open>Entries flagged before the pass\<close>



section \<open>One pass of the drain\<close>

text \<open>
  C5, as the code has it. In a pass of \<open>syncPendingEntries\<close> in which every request is
  accepted, the requests go, one after the other, to the entries of the array that were not
  flagged when the pass began, in the array's order: one request per such entry, the
  \<open>i\<close>-th carrying the \<open>i\<close>-th such entry and getting the environment's \<open>i\<close>-th answer of the
  pass. When no entry of the array is flagged, these are all \<open>n\<close> entries of the array, so
  exactly \<open>n\<close> requests are issued, in insertion order.
\<close>

theorem fifo_all_success:
  assumes "wf_page s" "\<forall>p\<in>set (pass_log net s). accepted p"
  shows "map target (pass_log net s) = unflagged s \<and>
         (\<forall>i<length (pass_log net s).
            sent (pass_log net s ! i) = sync_request (objs s ! (unflagged s ! i)) \<and>
            outcome (pass_log net s ! i) = net (length (net_log s) + i)) \<and>
         ((\<forall>a\<in>set (pendingEntries s). \<not> synced (objs s ! a)) \<longrightarrow>
            map target (pass_log net s) = pendingEntries s \<and>
            length (pass_log net s) = length (pendingEntries s))"
proof -
  have noerr: "\<forall>p\<in>set (pass_log net s). outcome p \<noteq> NetworkError"
    using assms(2) by (auto simp: accepted_def)
  have t: "map target (pass_log net s) = unflagged s"
    by (rule pass_complete[OF assms(1) noerr])
  have 2: "\<forall>i<length (pass_log net s).
            sent (pass_log net s ! i) = sync_request (objs s ! (unflagged s ! i)) \<and>
            outcome (pass_log net s ! i) = net (length (net_log s) + i)"
    using pass_sent[OF assms(1), of _ net] by simp
  have 3: "(\<forall>a\<in>set (pendingEntries s). \<not> synced (objs s ! a)) \<longrightarrow>
            map target (pass_log net s) = pendingEntries s \<and>
            length (pass_log net s) = length (pendingEntries s)"
  proof
    assume "\<forall>a\<in>set (pendingEntries s). \<not> synced (objs s ! a)"
    then have "unflagged s = pendingEntries s" by (simp add: unflagged_def)
    then show "map target (pass_log net s) = pendingEntries s \<and>
            length (pass_log net s) = length (pendingEntries s)"
      using t by (metis length_map)
  qed
  show ?thesis using t 2 3 by simp
qed

theorem fifo_all_success_witness:
  "wf_page (loaded [entry_A, entry_B, entry_C]) \<and>
   map accepted (pass_log net_ok (loaded [entry_A, entry_B, entry_C])) = [True, True, True] \<and>
   map synced (snapshot (loaded [entry_A, entry_B, entry_C])) = [False, False, False] \<and>
   map target (pass_log net_ok (loaded [entry_A, entry_B, entry_C])) = [0, 1, 2] \<and>
   length (pass_log net_ok (loaded [entry_A, entry_B, entry_C])) = 3 \<and>
   map sent (pass_log net_ok (loaded [entry_A, entry_B, entry_C])) =
     [sync_request entry_A, sync_request entry_B, sync_request entry_C]"
proof -
  let ?s = "loaded [entry_A, entry_B, entry_C]"
  have h1: "wf_page ?s" by (rule wf_loaded)
  have h2: "\<forall>p\<in>set (pass_log net_ok ?s). accepted p" by code_simp
  have h3: "\<forall>a\<in>set (pendingEntries ?s). \<not> synced (objs ?s ! a)" by code_simp
  have c2: "map accepted (pass_log net_ok ?s) = [True, True, True]" by code_simp
  have c3: "map synced (snapshot ?s) = [False, False, False]" by code_simp
  have p: "pendingEntries ?s = [0, 1, 2]" by code_simp
  have r: "map sent (pass_log net_ok ?s) = [sync_request entry_A, sync_request entry_B, sync_request entry_C]"
    by code_simp
  have "map target (pass_log net_ok ?s) = pendingEntries ?s \<and>
        length (pass_log net_ok ?s) = length (pendingEntries ?s)"
    using fifo_all_success[OF h1 h2] h3 by blast
  then have t: "map target (pass_log net_ok ?s) = [0, 1, 2] \<and>
        length (pass_log net_ok ?s) = length [0::nat, 1, 2]"
    unfolding p .
  have "length [0::nat, 1, 2] = 3" by simp
  then show ?thesis using h1 c2 c3 r t by metis
qed

text \<open>
  C5 as stated fails on a queue that holds an entry already flagged: the queue has one
  entry, no request fails, and no request is issued.
\<close>

theorem fifo_presynced_counterexample:
  "length [entry_A\<lparr>synced := True\<rparr>] = 1 \<and>
   pass_log net_ok (loaded [entry_A\<lparr>synced := True\<rparr>]) = []"
  by code_simp

text \<open>
  C3, as the code has it. If in a pass of \<open>syncPendingEntries\<close> the request for an entry
  ends in a transport error, that request is the last of the pass: no entry that stands
  later in the array gets a request. After the pass the stored queue holds, in their
  original order, exactly the entries that were not flagged when the pass began and whose
  request was not accepted in it. In particular, for the queue \<open>[A, B, C]\<close> where
  the request for \<open>A\<close> is accepted, the one for \<open>B\<close> ends in a transport error and \<open>C\<close> is
  not flagged, the stored queue is \<open>[B, C]\<close> and requests went to \<open>A\<close> and \<open>B\<close> only.
\<close>

theorem abort_on_transport_error:
  "(wf_page s \<and> i < length (pass_log net s) \<and> outcome (pass_log net s ! i) = NetworkError \<longrightarrow>
      Suc i = length (pass_log net s) \<and>
      (\<forall>pre post. pendingEntries s = pre @ target (pass_log net s ! i) # post \<longrightarrow>
         (\<forall>p\<in>set (pass_log net s). target p \<notin> set post)) \<and>
      persisted (syncPendingEntries net s) =
        map (\<lambda>a. objs s ! a)
          (filter (\<lambda>a. \<not> synced (objs s ! a) \<and> a \<notin> set (accepted_targets (pass_log net s)))
             (pendingEntries s))) \<and>
   (take 2 (map target (pass_log net' (loaded [A, B, C]))) = [0, 1] \<and>
    take 2 (map outcome (pass_log net' (loaded [A, B, C]))) = [Response status, NetworkError] \<and>
    ok status \<and> \<not> synced C \<longrightarrow>
      persisted (syncPendingEntries net' (loaded [A, B, C])) = [B, C] \<and>
      map target (pass_log net' (loaded [A, B, C])) = [0, 1])"
proof (intro conjI impI)
  assume a: "wf_page s \<and> i < length (pass_log net s) \<and> outcome (pass_log net s ! i) = NetworkError"
  then have w: "wf_page s" and i: "i < length (pass_log net s)"
    and e: "outcome (pass_log net s ! i) = NetworkError" by simp_all
  let ?L = "pass_log net s"
  have eq: "?L = posts_of net (length (net_log s)) (objs s) (pendingEntries s)"
    by (rule pass_log_eq(1)[OF w])
  have d: "distinct (pendingEntries s)" using w by (simp add: wf_page_def)
  show "Suc i = length ?L"
    using posts_of_error_last[of i net "length (net_log s)" "objs s" "pendingEntries s"] i e
    by (simp add: eq)
  have mem: "?L ! i \<in> set ?L" using i by simp
  show "\<forall>pre post. pendingEntries s = pre @ target (?L ! i) # post \<longrightarrow>
            (\<forall>p\<in>set ?L. target p \<notin> set post)"
  proof (intro allI impI ballI)
    fix pre post p
    define t where "t = target (?L ! i)"
    assume q: "pendingEntries s = pre @ target (?L ! i) # post" and p: "p \<in> set ?L"
    have q': "pendingEntries s = pre @ t # post" using q by (simp only: t_def)
    have L': "posts_of net (length (net_log s)) (objs s) (pre @ t # post) = ?L"
      using eq by (simp only: q')
    have dd: "distinct (pre @ t # post)" using d by (simp only: q')
    have m1: "?L ! i \<in> set (posts_of net (length (net_log s)) (objs s) (pre @ t # post))"
      using mem by (simp only: L')
    have m2: "p \<in> set (posts_of net (length (net_log s)) (objs s) (pre @ t # post))"
      using p by (simp only: L')
    have "target (?L ! i) = t" by (simp only: t_def)
    then show "target p \<notin> set post"
      by (rule posts_of_abort[OF m1 _ e dd m2])
  qed
  have "?L \<noteq> []" using i by auto
  then have ne: "pendingEntries s \<noteq> []" by (rule pass_log_nonempty)
  show "persisted (syncPendingEntries net s) =
        map (\<lambda>a. objs s ! a)
          (filter (\<lambda>a. \<not> synced (objs s ! a) \<and> a \<notin> set (accepted_targets ?L))
             (pendingEntries s))"
    by (rule pass_persisted[OF w ne])
next
  assume b: "take 2 (map target (pass_log net' (loaded [A, B, C]))) = [0, 1] \<and>
    take 2 (map outcome (pass_log net' (loaded [A, B, C]))) = [Response status, NetworkError] \<and>
    ok status \<and> \<not> synced C"
  then show "persisted (syncPendingEntries net' (loaded [A, B, C])) = [B, C]"
    using abort_by_outcomes[of net' A B C status] by blast
  from b show "map target (pass_log net' (loaded [A, B, C])) = [0, 1]"
    using abort_by_outcomes[of net' A B C status] by blast
qed

theorem abort_on_transport_error_witness:
  "wf_page (loaded [entry_A, entry_B, entry_C]) \<and>
   1 < length (pass_log net_fail_second (loaded [entry_A, entry_B, entry_C])) \<and>
   outcome (pass_log net_fail_second (loaded [entry_A, entry_B, entry_C]) ! 1) = NetworkError \<and>
   pendingEntries (loaded [entry_A, entry_B, entry_C]) =
     [0] @ target (pass_log net_fail_second (loaded [entry_A, entry_B, entry_C]) ! 1) # [2] \<and>
   take 2 (map target (pass_log net_fail_second (loaded [entry_A, entry_B, entry_C]))) = [0, 1] \<and>
   take 2 (map outcome (pass_log net_fail_second (loaded [entry_A, entry_B, entry_C]))) =
     [Response 200, NetworkError] \<and>
   ok 200 \<and> \<not> synced entry_C \<and>
   Suc 1 = length (pass_log net_fail_second (loaded [entry_A, entry_B, entry_C])) \<and>
   persisted (syncPendingEntries net_fail_second (loaded [entry_A, entry_B, entry_C])) =
     [entry_B, entry_C] \<and>
   map target (pass_log net_fail_second (loaded [entry_A, entry_B, entry_C])) = [0, 1]"
proof -
  let ?s = "loaded [entry_A, entry_B, entry_C]"
  have h1: "wf_page ?s \<and> 1 < length (pass_log net_fail_second ?s) \<and>
            outcome (pass_log net_fail_second ?s ! 1) = NetworkError"
    by code_simp
  have h2: "pendingEntries ?s = [0] @ target (pass_log net_fail_second ?s ! 1) # [2]"
    by code_simp
  have h3: "take 2 (map target (pass_log net_fail_second ?s)) = [0, 1] \<and>
            take 2 (map outcome (pass_log net_fail_second ?s)) = [Response 200, NetworkError] \<and>
            ok 200 \<and> \<not> synced entry_C"
    by code_simp
  show ?thesis
    using h1 h2 h3
      abort_on_transport_error[where s = ?s and i = 1 and net = net_fail_second and A = entry_A
        and B = entry_B and C = entry_C and net' = net_fail_second and status = 200]
    by blast
qed

text \<open>
  C3 as stated fails when an entry behind the failing one is already flagged: with \<open>C\<close>
  flagged, the request for \<open>A\<close> accepted and the one for \<open>B\<close> ending in a transport error, no
  request for \<open>C\<close> succeeded, and yet the stored queue is \<open>[B]\<close>, not \<open>[B, C]\<close>.
\<close>

theorem abort_presynced_counterexample:
  "map outcome (pass_log net_fail_second (loaded [entry_A, entry_B, entry_C\<lparr>synced := True\<rparr>])) =
     [Response 200, NetworkError] \<and>
   map target (pass_log net_fail_second (loaded [entry_A, entry_B, entry_C\<lparr>synced := True\<rparr>])) =
     [0, 1] \<and>
   persisted (syncPendingEntries net_fail_second (loaded [entry_A, entry_B, entry_C\<lparr>synced := True\<rparr>])) =
     [entry_B] \<and>
   [entry_B] \<noteq> [entry_B, entry_C\<lparr>synced := True\<rparr>]"
  by code_simp

text \<open>
  C4. A request of a pass that is answered with a status outside 200..299 does not end the
  pass: if a further unflagged entry stands behind the rejected one, the next request of
  the pass goes to it. The rejected entry is still in the array and in the stored queue
  after the pass. In particular, for the queue \<open>[A, B]\<close> where the request for \<open>A\<close> is
  rejected and the one for \<open>B\<close> is accepted, the stored queue after the pass is \<open>[A]\<close>.
\<close>

theorem rejected_entry_kept:
  "(wf_page s \<and> i < length (pass_log net s) \<and>
    outcome (pass_log net s ! i) = Response status \<and> \<not> ok status \<longrightarrow>
      target (pass_log net s ! i) \<in> set (pendingEntries (syncPendingEntries net s)) \<and>
      objs s ! target (pass_log net s ! i) \<in> set (persisted (syncPendingEntries net s)) \<and>
      (Suc i < length (unflagged s) \<longrightarrow>
         Suc i < length (pass_log net s) \<and>
         target (pass_log net s ! Suc i) = unflagged s ! Suc i)) \<and>
   (take 2 (map target (pass_log net' (loaded [A, B]))) = [0, 1] \<and>
    take 2 (map outcome (pass_log net' (loaded [A, B]))) = [Response status_a, Response status_b] \<and>
    \<not> ok status_a \<and> ok status_b \<longrightarrow>
      persisted (syncPendingEntries net' (loaded [A, B])) = [A])"
proof (intro conjI impI)
  assume a: "wf_page s \<and> i < length (pass_log net s) \<and>
    outcome (pass_log net s ! i) = Response status \<and> \<not> ok status"
  then have w: "wf_page s" and i: "i < length (pass_log net s)"
    and r: "outcome (pass_log net s ! i) = Response status" and n: "\<not> ok status"
    by simp_all
  show "target (pass_log net s ! i) \<in> set (pendingEntries (syncPendingEntries net s))"
    by (rule rejected_kept(1)[OF w i r n])
  show "objs s ! target (pass_log net s ! i) \<in> set (persisted (syncPendingEntries net s))"
    by (rule rejected_kept(2)[OF w i r n])
  assume "Suc i < length (unflagged s)"
  then show "Suc i < length (pass_log net s)"
    and "target (pass_log net s ! Suc i) = unflagged s ! Suc i"
    using rejected_kept(3)[OF w i r n] by simp_all
next
  assume "take 2 (map target (pass_log net' (loaded [A, B]))) = [0, 1] \<and>
    take 2 (map outcome (pass_log net' (loaded [A, B]))) = [Response status_a, Response status_b] \<and>
    \<not> ok status_a \<and> ok status_b"
  then show "persisted (syncPendingEntries net' (loaded [A, B])) = [A]"
    using reject_by_outcomes[of net' A B status_a status_b] by blast
qed

theorem rejected_entry_kept_witness:
  "wf_page (loaded [entry_A, entry_B]) \<and>
   0 < length (pass_log net_reject_first (loaded [entry_A, entry_B])) \<and>
   outcome (pass_log net_reject_first (loaded [entry_A, entry_B]) ! 0) = Response 422 \<and>
   \<not> ok 422 \<and> Suc 0 < length (unflagged (loaded [entry_A, entry_B])) \<and>
   take 2 (map target (pass_log net_reject_first (loaded [entry_A, entry_B]))) = [0, 1] \<and>
   take 2 (map outcome (pass_log net_reject_first (loaded [entry_A, entry_B]))) =
     [Response 422, Response 200] \<and>
   ok 200 \<and>
   target (pass_log net_reject_first (loaded [entry_A, entry_B]) ! 0)
     \<in> set (pendingEntries (syncPendingEntries net_reject_first (loaded [entry_A, entry_B]))) \<and>
   Suc 0 < length (pass_log net_reject_first (loaded [entry_A, entry_B])) \<and>
   persisted (syncPendingEntries net_reject_first (loaded [entry_A, entry_B])) = [entry_A]"
proof -
  let ?s = "loaded [entry_A, entry_B]"
  have h1: "wf_page ?s \<and> 0 < length (pass_log net_reject_first ?s) \<and>
            outcome (pass_log net_reject_first ?s ! 0) = Response 422 \<and> \<not> ok 422"
    by code_simp
  have h2: "Suc 0 < length (unflagged ?s)" by code_simp
  have h3: "take 2 (map target (pass_log net_reject_first ?s)) = [0, 1] \<and>
            take 2 (map outcome (pass_log net_reject_first ?s)) = [Response 422, Response 200] \<and>
            \<not> ok 422 \<and> ok 200"
    by code_simp
  show ?thesis
    using h1 h2 h3
      rejected_entry_kept[where s = ?s and i = 0 and net = net_reject_first and status = 422
        and A = entry_A and B = entry_B and net' = net_reject_first and status_a = 422
        and status_b = 200]
    by blast
qed

section \<open>Histories: no loss, no second submission, ids\<close>



text \<open>
  C2. An entry whose request was accepted in a pass of a history (run from the empty page)
  gets no request in anything that follows the history: neither in the later passes that
  ran to their end, nor in the rounds made so far of a pass that is still under way.
\<close>

theorem no_resubmission:
  assumes "s = run net ops init" "p \<in> set (net_log s)" "accepted p"
    and "s' = mid_pass net k (run net ops' s)"
    and "p' \<in> set (drop (length (net_log s)) (net_log s'))"
  shows "target p' \<noteq> target p"
proof -
  have c: "consistent s" unfolding assms(1) by (rule consistent_run[OF consistent_init])
  let ?a = "target p"
  have a: "?a < length (objs s)" using c assms(2) by (simp add: consistent_def)
  have "?a \<in> set (accepted_targets (net_log s))"
    using assms(2,3) by (auto simp: accepted_targets_mem)
  then have "accepted_count s ?a \<noteq> 0" by (simp add: accepted_count_def count_list_0_iff)
  then have nq: "?a \<notin> set (pendingEntries s)"
    using c a by (auto simp: consistent_def split: if_splits)
  let ?r = "run net ops' s"
  have cr: "consistent ?r" by (rule consistent_run[OF c])
  from run_later[OF c, of net ops'] obtain new where
    n1: "net_log ?r = net_log s @ new"
    and n2: "\<forall>p\<in>set new. target p \<in> set (pendingEntries s) \<or> length (objs s) \<le> target p"
    and n3: "\<forall>a\<in>set (pendingEntries ?r). a \<in> set (pendingEntries s) \<or> length (objs s) \<le> a"
    by blast
  let ?as = "take k (pendingEntries ?r)"
  let ?P = "posts_of net (length (net_log ?r)) (objs ?r) ?as"
  have d: "distinct ?as" using cr by (simp add: consistent_def wf_page_def)
  have l: "net_log s' = net_log s @ new @ ?P"
    unfolding assms(4) using loop_log[OF d, of net "[]" ?r] by (simp add: mid_pass_def n1)
  then have "p' \<in> set new \<or> p' \<in> set ?P" using assms(5) by auto
  then have "target p' \<in> set (pendingEntries s) \<or> length (objs s) \<le> target p'"
  proof
    assume "p' \<in> set new"
    then show ?thesis using n2 by blast
  next
    assume "p' \<in> set ?P"
    then have "target p' \<in> set ?as"
      using posts_of_target[of p' net "length (net_log ?r)" "objs ?r" ?as] by simp
    then have "target p' \<in> set (pendingEntries ?r)" by (rule in_set_takeD)
    then show ?thesis using n3 by blast
  qed
  then show ?thesis using nq a by auto
qed

theorem no_resubmission_witness:
  "net_log (run net_reject_first [Append 1 data_A, Append 2 data_B, Drain] init) ! 1
     \<in> set (net_log (run net_reject_first [Append 1 data_A, Append 2 data_B, Drain] init)) \<and>
   accepted (net_log (run net_reject_first [Append 1 data_A, Append 2 data_B, Drain] init) ! 1) \<and>
   net_log (mid_pass net_reject_first 0 (run net_reject_first [Append 3 data_C, Drain]
       (run net_reject_first [Append 1 data_A, Append 2 data_B, Drain] init))) ! 2
     \<in> set (drop (length (net_log (run net_reject_first [Append 1 data_A, Append 2 data_B, Drain] init)))
          (net_log (mid_pass net_reject_first 0 (run net_reject_first [Append 3 data_C, Drain]
             (run net_reject_first [Append 1 data_A, Append 2 data_B, Drain] init))))) \<and>
   target (net_log (mid_pass net_reject_first 0 (run net_reject_first [Append 3 data_C, Drain]
       (run net_reject_first [Append 1 data_A, Append 2 data_B, Drain] init))) ! 2) \<noteq>
   target (net_log (run net_reject_first [Append 1 data_A, Append 2 data_B, Drain] init) ! 1)"
proof -
  let ?s = "run net_reject_first [Append 1 data_A, Append 2 data_B, Drain] init"
  let ?s' = "mid_pass net_reject_first 0 (run net_reject_first [Append 3 data_C, Drain] ?s)"
  have h2: "net_log ?s ! 1 \<in> set (net_log ?s)" by code_simp
  have h3: "accepted (net_log ?s ! 1)" by code_simp
  have h5: "net_log ?s' ! 2 \<in> set (drop (length (net_log ?s)) (net_log ?s'))" by code_simp
  show ?thesis using h2 h3 h5 no_resubmission[OF refl h2 h3 refl h5] by blast
qed

text \<open>
  C7, as the code has it. The id of an entry is \<open>offline_\<close> followed by the clock value its
  append read, and nothing else. In a history whose appends read pairwise different clock
  values, the ids of the entries in the queue are pairwise distinct after the history.
\<close>

theorem ids_distinct:
  assumes "distinct (stamps ops)" "s = run net ops init"
  shows "distinct (map id_field (snapshot s))"
proof -
  have c: "consistent s" unfolding assms(2) by (rule consistent_run[OF consistent_init])
  then have d: "distinct (pendingEntries s)" and v: "\<forall>a\<in>set (pendingEntries s). a < length (objs s)"
    by (simp_all add: consistent_def wf_page_def)
  have u: "map unflag (objs s) = appended ops"
    unfolding assms(2) using run_unflag[of net ops init] by (simp add: init_def)
  have "map id_field (objs s) = map id_field (map unflag (objs s))" by simp
  then have ids: "map id_field (objs s) = map (\<lambda>n. ''offline_'' @ to_decimal n) (stamps ops)"
    by (simp only: u appended_ids)
  have "inj (\<lambda>n. ''offline_'' @ to_decimal n)"
    by (rule injI) (simp add: to_decimal_inj)
  then have di: "distinct (map id_field (objs s))"
    using assms(1) by (simp only: ids distinct_map) (auto intro: inj_on_subset)
  have "map id_field (snapshot s) = map (\<lambda>a. map id_field (objs s) ! a) (pendingEntries s)"
    unfolding snapshot_def using v by simp
  moreover have "distinct (map (\<lambda>a. map id_field (objs s) ! a) (pendingEntries s))"
    unfolding distinct_map
  proof
    show "distinct (pendingEntries s)" by (rule d)
    show "inj_on (\<lambda>a. map id_field (objs s) ! a) (set (pendingEntries s))"
    proof (rule inj_onI)
      fix a b assume "a \<in> set (pendingEntries s)" "b \<in> set (pendingEntries s)"
        and e: "map id_field (objs s) ! a = map id_field (objs s) ! b"
      then have "a < length (map id_field (objs s))" "b < length (map id_field (objs s))"
        using v by simp_all
      then show "a = b" using di e nth_eq_iff_index_eq by blast
    qed
  qed
  ultimately show ?thesis by simp
qed

theorem ids_distinct_witness:
  "distinct (stamps [Append 1 data_A, Append 2 data_B, Drain, Append 3 data_C]) \<and>
   distinct (map id_field (snapshot
     (run net_reject_first [Append 1 data_A, Append 2 data_B, Drain, Append 3 data_C] init))) \<and>
   map id_field (snapshot
     (run net_reject_first [Append 1 data_A, Append 2 data_B, Drain, Append 3 data_C] init)) =
     [''offline_1'', ''offline_3'']"
proof -
  let ?ops = "[Append 1 data_A, Append 2 data_B, Drain, Append 3 data_C]"
  have h: "distinct (stamps ?ops)" by code_simp
  have c: "map id_field (snapshot (run net_reject_first ?ops init)) = [''offline_1'', ''offline_3'']"
    by code_simp
  show ?thesis using h c ids_distinct[where net = net_reject_first, OF h refl] by blast
qed

text \<open>
  C7 as stated fails: two appends that read the same clock value (two submissions within
  one millisecond) leave two entries with the same id in the queue.
\<close>

theorem ids_same_clock_counterexample:
  "map id_field (snapshot (run net_ok [Append 5 data_A, Append 5 data_B] init)) =
     [''offline_5'', ''offline_5''] \<and>
   \<not> distinct (map id_field (snapshot (run net_ok [Append 5 data_A, Append 5 data_B] init)))"
  by code_simp

section \<open>Loading\<close>

text \<open>
  C6, as the code has it. \<open>loadPendingEntries\<close> never throws, whatever storage holds. When
  the stored text is one that \<open>JSON.parse\<close> rejects, or the text \<open>null\<close>, the array is empty
  afterwards (for the empty text: it stays as the constructor left it, empty). Any other
  value that \<open>JSON.parse\<close> returns and the log line can print becomes the array as it is,
  queue or not.
\<close>

theorem load_recovers:
  "(\<exists>v. loadPendingEntries JSON_parse stored current = Inr v) \<and>
   (stored = Some raw \<and> JSON_parse raw = None \<longrightarrow>
      loadPendingEntries JSON_parse stored (JArr []) = Inr (JArr []) \<and>
      (raw \<noteq> [] \<longrightarrow> loadPendingEntries JSON_parse stored current = Inr (JArr []))) \<and>
   (stored = Some raw \<and> JSON_parse raw = Some JNull \<longrightarrow>
      loadPendingEntries JSON_parse stored (JArr []) = Inr (JArr [])) \<and>
   (stored = Some raw \<and> raw \<noteq> [] \<and> JSON_parse raw = Some v' \<and> log_loaded v' = None \<longrightarrow>
      loadPendingEntries JSON_parse stored current = Inr v')"
  by (auto simp: loadPendingEntries_def truthy_def try_parse_def log_loaded_def
           split: sum.splits option.splits)

theorem load_recovers_witness:
  "sample_parse ''{oops'' = None \<and> ''{oops'' \<noteq> [] \<and>
   loadPendingEntries sample_parse (Some ''{oops'') (JArr [JNum 1]) = Inr (JArr []) \<and>
   sample_parse ''null'' = Some JNull \<and>
   loadPendingEntries sample_parse (Some ''null'') (JArr []) = Inr (JArr []) \<and>
   sample_parse ''[]'' = Some (JArr []) \<and> log_loaded (JArr []) = None \<and>
   loadPendingEntries sample_parse (Some ''[]'') (JArr [JNum 1]) = Inr (JArr [])"
proof -
  have h1: "Some ''{oops'' = Some ''{oops'' \<and> sample_parse ''{oops'' = None" by code_simp
  have h1': "''{oops'' \<noteq> []" by simp
  have h2: "Some ''null'' = Some ''null'' \<and> sample_parse ''null'' = Some JNull" by code_simp
  have h3: "Some ''[]'' = Some ''[]'' \<and> ''[]'' \<noteq> [] \<and> sample_parse ''[]'' = Some (JArr []) \<and>
            log_loaded (JArr []) = None"
    by code_simp
  show ?thesis
    using h1 h1' h2 h3
      load_recovers[where JSON_parse = sample_parse and stored = "Some ''{oops''"
        and raw = "''{oops''" and current = "JArr [JNum 1]"]
      load_recovers[where JSON_parse = sample_parse and stored = "Some ''null''"
        and raw = "''null''" and current = "JArr []"]
      load_recovers[where JSON_parse = sample_parse and stored = "Some ''[]''"
        and raw = "''[]''" and current = "JArr [JNum 1]" and v' = "JArr []"]
    by blast
qed

text \<open>
  C6 as stated fails on a stored text that is JSON but not a queue: the text \<open>5\<close> parses to
  the number 5, nothing throws, and the array is then that number, not an empty sequence.
\<close>

theorem load_non_queue_counterexample:
  "sample_parse ''5'' = Some (JNum 5) \<and> \<not> is_array (JNum 5) \<and>
   loadPendingEntries sample_parse (Some ''5'') (JArr []) = Inr (JNum 5) \<and>
   JNum 5 \<noteq> JArr []"
  by code_simp

section \<open>Background sync\<close>


end
